theory Spec2Isabelle
  imports Main "HOL-Library.Sublist" "HOL-Library.AList" "HOL-Library.Multiset" "HOL-Library.Word"
begin

section \<open>Data model of \<^verbatim>\<open>backend/main.py\<close>\<close>

text \<open>
  A \<^verbatim>\<open>datetime\<close> is a point on the time line, counted in microseconds (the
  resolution of Python's \<^verbatim>\<open>datetime\<close>) from a fixed origin, which the examples
  below take to be 2024-01-01 12:00:00; comparison of two naive datetimes is the
  comparison of these numbers, and \<^verbatim>\<open>timedelta(minutes=m)\<close> is \<open>m\<close> minutes of
  microseconds. The clock itself is not part of the program: every handler that
  calls \<^verbatim>\<open>datetime.now()\<close> takes the value read as an argument.
\<close>

type_synonym datetime = int

definition timedelta_minutes :: "int \<Rightarrow> int" where
  "timedelta_minutes m = m * 60 * 1000000"

type_synonym bytes = "8 word list"

text \<open>The values of the dictionary \<^verbatim>\<open>device_status\<close>:
  \<^verbatim>\<open>{"status": ..., "last_seen": ...}\<close>.\<close>

record status_entry =
  status :: string
  last_seen :: datetime

text \<open>\<^verbatim>\<open>class ImageMetadata(BaseModel)\<close>; pydantic models compare field by field,
  which is the equality of the record.\<close>

record ImageMetadata =
  device_id :: string
  filename :: string
  upload_time :: datetime
  file_path :: string

text \<open>
  The file system is a table from path strings to contents. Several strings can name
  one file (\<^verbatim>\<open>uploads/./x\<close> is \<^verbatim>\<open>uploads/x\<close>): which file a path names is decided
  by \<open>resolve\<close> below, and every operation reaches the file through it. A Python \<^verbatim>\<open>dict\<close> keeps its keys in
  insertion order, so \<^verbatim>\<open>device_status\<close> is an association list:
  \<^verbatim>\<open>d[k] = v\<close> is \<^const>\<open>AList.update\<close> and \<^verbatim>\<open>del d[k]\<close> is
  \<^const>\<open>AList.delete\<close>.
\<close>

type_synonym filesystem = "(string \<times> bytes) list"

type_synonym registry = "(string \<times> status_entry) list"

record state =
  device_status :: registry
  image_metadata :: "ImageMetadata list"
  files :: filesystem

datatype error = HTTPException nat | FileNotFoundError | ValueError | KeyError

definition UPLOAD_DIR :: string where
  "UPLOAD_DIR = ''uploads''"

definition initial_state :: state where
  "initial_state = \<lparr>device_status = [], image_metadata = [], files = []\<rparr>"

section \<open>The Python and operating-system primitives the handlers call\<close>

text \<open>\<^verbatim>\<open>os.path.join(a, b)\<close> for two components (posixpath): an absolute \<open>b\<close>
  replaces \<open>a\<close>.\<close>

definition os_path_join :: "string \<Rightarrow> string \<Rightarrow> string" where
  "os_path_join a b =
     (if b \<noteq> [] \<and> hd b = CHR ''/'' then b
      else if a = [] then b
      else if last a = CHR ''/'' then a @ b
      else a @ ''/'' @ b)"

text \<open>
  How the operating system resolves a path. The path is cut at its slashes; empty
  components and \<^verbatim>\<open>.\<close> are skipped; \<^verbatim>\<open>..\<close> leaves the directory reached so far (at
  the root it stays there, and at the start of a relative path it is kept). Every
  directory named on the way is taken to exist, and there are no symbolic links. The
  result says whether the path is absolute, and which components lead to the file.
\<close>

fun split_path :: "string \<Rightarrow> string \<Rightarrow> string list" where
  "split_path cur [] = [cur]"
| "split_path cur (c # cs) =
     (if c = CHR ''/'' then cur # split_path [] cs else split_path (cur @ [c]) cs)"

fun walk :: "bool \<Rightarrow> string list \<Rightarrow> string list \<Rightarrow> string list" where
  "walk absolute dirs [] = dirs"
| "walk absolute dirs (c # cs) =
     (if c = [] \<or> c = ''.'' then walk absolute dirs cs
      else if c = ''..''
      then (if dirs \<noteq> [] \<and> last dirs \<noteq> ''..'' then walk absolute (butlast dirs) cs
            else if absolute then walk absolute dirs cs
            else walk absolute (dirs @ [c]) cs)
      else walk absolute (dirs @ [c]) cs)"

definition resolve :: "string \<Rightarrow> bool \<times> string list" where
  "resolve p =
     (let absolute = (p \<noteq> [] \<and> hd p = CHR ''/'')
      in (absolute, walk absolute [] (split_path [] p)))"

definition same_file :: "string \<Rightarrow> string \<Rightarrow> bool" where
  "same_file p q \<longleftrightarrow> resolve p = resolve q"

text \<open>The bytes of the file that a path names, if there is such a file.\<close>

definition lookup_file :: "string \<Rightarrow> filesystem \<Rightarrow> bytes option" where
  "lookup_file path fs = map_of (map (\<lambda>(k, v). (resolve k, v)) fs) (resolve path)"

text \<open>\<^verbatim>\<open>with open(path, "wb") as buffer: shutil.copyfileobj(image.file, buffer)\<close>:
  the file that the path names is overwritten, or created under this path when there
  is none. The write is taken to succeed (the directory of the path exists and is
  writable); a write that fails raises before the handler has changed anything.\<close>

definition open_wb :: "string \<Rightarrow> bytes \<Rightarrow> filesystem \<Rightarrow> filesystem" where
  "open_wb path content fs =
     (case lookup_file path fs of
        None \<Rightarrow> fs @ [(path, content)]
      | Some _ \<Rightarrow> map (\<lambda>(k, v). (k, if same_file k path then content else v)) fs)"

text \<open>\<^verbatim>\<open>os.remove(path)\<close> deletes the file that the path names and raises
  \<^verbatim>\<open>FileNotFoundError\<close> when there is no such file; it has no other error here.\<close>

definition os_remove :: "string \<Rightarrow> filesystem \<Rightarrow> error + filesystem" where
  "os_remove path fs =
     (case lookup_file path fs of
        None \<Rightarrow> Inl FileNotFoundError
      | Some _ \<Rightarrow> Inr (filter (\<lambda>(k, v). \<not> same_file k path) fs))"

text \<open>\<^verbatim>\<open>os.listdir(dir)\<close>: the names of the files directly in \<open>dir\<close>, each once.\<close>

definition os_listdir :: "string \<Rightarrow> filesystem \<Rightarrow> string list" where
  "os_listdir dir fs =
     remdups
       [last (snd (resolve k)). k \<leftarrow> map fst fs,
          snd (resolve k) \<noteq> [] \<and>
          (fst (resolve k), butlast (snd (resolve k))) = resolve dir]"

text \<open>\<^verbatim>\<open>s.startswith(p)\<close>.\<close>

definition startswith :: "string \<Rightarrow> string \<Rightarrow> bool" where
  "startswith s p = prefix p s"

text \<open>The slice \<^verbatim>\<open>xs[:n]\<close>: a negative \<open>n\<close> counts from the end, and a bound
  outside the list is clipped.\<close>

definition slice_to :: "'a list \<Rightarrow> int \<Rightarrow> 'a list" where
  "slice_to xs n =
     (if 0 \<le> n then take (nat n) xs else take (length xs - nat (- n)) xs)"

text \<open>\<^verbatim>\<open>xs.remove(x)\<close> deletes the first element equal to \<open>x\<close> and raises
  \<^verbatim>\<open>ValueError\<close> when there is none.\<close>

definition list_remove :: "'a \<Rightarrow> 'a list \<Rightarrow> error + 'a list" where
  "list_remove x xs = (if x \<in> set xs then Inr (remove1 x xs) else Inl ValueError)"


text \<open>\<^verbatim>\<open>max(xs, key=f)\<close>: the first element with the greatest key;
  \<^verbatim>\<open>ValueError\<close> on an empty sequence.\<close>

fun max_from :: "('a \<Rightarrow> int) \<Rightarrow> 'a \<Rightarrow> 'a list \<Rightarrow> 'a" where
  "max_from f best [] = best"
| "max_from f best (x # xs) = max_from f (if f best < f x then x else best) xs"

definition max_key :: "('a \<Rightarrow> int) \<Rightarrow> 'a list \<Rightarrow> error + 'a" where
  "max_key f xs = (case xs of [] \<Rightarrow> Inl ValueError | x # rest \<Rightarrow> Inr (max_from f x rest))"

section \<open>Device registry: \<^verbatim>\<open>heartbeat\<close>, \<^verbatim>\<open>get_devices\<close>, \<^verbatim>\<open>get_system_status\<close>\<close>

definition heartbeat :: "datetime \<Rightarrow> string \<Rightarrow> string \<Rightarrow> state \<Rightarrow> state" where
  "heartbeat now dev st s =
     s\<lparr>device_status :=
         AList.update dev \<lparr>status = st, last_seen = now\<rparr> (device_status s)\<rparr>"

text \<open>\<^verbatim>\<open>for device_id in devices_to_remove: del device_status[device_id]\<close>;
  \<^verbatim>\<open>del\<close> raises \<^verbatim>\<open>KeyError\<close> on a missing key, and what was deleted before
  stays deleted.\<close>

fun del_devices :: "string list \<Rightarrow> registry \<Rightarrow> error option \<times> registry" where
  "del_devices [] ds = (None, ds)"
| "del_devices (dev # rest) ds =
     (case map_of ds dev of
        None \<Rightarrow> (Some KeyError, ds)
      | Some _ \<Rightarrow> del_devices rest (AList.delete dev ds))"

definition expired :: "datetime \<Rightarrow> status_entry \<Rightarrow> bool" where
  "expired cutoff_time st \<longleftrightarrow> status st = ''offline'' \<and> last_seen st < cutoff_time"

definition get_devices :: "datetime \<Rightarrow> state \<Rightarrow> (error + registry) \<times> state" where
  "get_devices now s =
     (let cutoff_time = now - timedelta_minutes 5;
          devices_to_remove =
            map fst (filter (\<lambda>(dev, st). expired cutoff_time st) (device_status s))
      in case del_devices devices_to_remove (device_status s) of
           (Some e, ds) \<Rightarrow> (Inl e, s\<lparr>device_status := ds\<rparr>)
         | (None, ds) \<Rightarrow> (Inr ds, s\<lparr>device_status := ds\<rparr>))"

record system_status =
  online_devices :: nat
  total_devices :: nat
  total_images :: nat
  timestamp :: datetime

definition get_system_status :: "datetime \<Rightarrow> state \<Rightarrow> system_status" where
  "get_system_status now s =
     \<lparr>online_devices =
        length (filter (\<lambda>st. status st = ''online'') (map snd (device_status s))),
      total_devices = length (device_status s),
      total_images = length (image_metadata s),
      timestamp = now\<rparr>"

section \<open>Image ledger and blob store: \<^verbatim>\<open>upload_image\<close>\<close>

text \<open>
  The loop \<^verbatim>\<open>for old_img in device_images[:-20]\<close> of \<^verbatim>\<open>upload_image\<close>. In the
  \<^verbatim>\<open>try\<close> block \<^verbatim>\<open>os.remove\<close> comes first: when it raises
  \<^verbatim>\<open>FileNotFoundError\<close> the handler passes and \<^verbatim>\<open>image_metadata.remove\<close> is not
  reached. A \<^verbatim>\<open>ValueError\<close> of \<^verbatim>\<open>image_metadata.remove\<close> is not caught and ends
  the request, the file being deleted already.
\<close>

fun remove_old :: "ImageMetadata list \<Rightarrow> state \<Rightarrow> error option \<times> state" where
  "remove_old [] s = (None, s)"
| "remove_old (old_img # rest) s =
     (case os_remove (file_path old_img) (files s) of
        Inl _ \<Rightarrow> remove_old rest s
      | Inr fs \<Rightarrow>
          (case list_remove old_img (image_metadata s) of
             Inl e \<Rightarrow> (Some e, s\<lparr>files := fs\<rparr>)
           | Inr md \<Rightarrow> remove_old rest (s\<lparr>files := fs, image_metadata := md\<rparr>)))"

text \<open>
  \<^verbatim>\<open>upload_image(image, device_id)\<close>. The two readings of the clock are arguments:
  \<open>ts\<close> is \<^verbatim>\<open>datetime.now().strftime("%Y%m%d_%H%M%S")\<close> and \<open>now\<close> is the later
  \<^verbatim>\<open>datetime.now()\<close> stored as \<^verbatim>\<open>upload_time\<close>. The result is the file name of
  the response, or the error raised.
\<close>

definition upload_image ::
  "string \<Rightarrow> datetime \<Rightarrow> bytes \<Rightarrow> string option \<Rightarrow> state \<Rightarrow> (error + string) \<times> state" where
  "upload_image ts now content dev s =
     (case dev of
        None \<Rightarrow> (Inl (HTTPException 400), s)
      | Some d \<Rightarrow>
          if d = [] then (Inl (HTTPException 400), s)
          else
            let fname = d @ ''-'' @ ts @ ''.png'';
                path = os_path_join UPLOAD_DIR fname;
                s1 = s\<lparr>files := open_wb path content (files s)\<rparr>;
                metadata = \<lparr>device_id = d, filename = fname, upload_time = now,
                            file_path = path\<rparr>;
                s2 = s1\<lparr>image_metadata := image_metadata s1 @ [metadata]\<rparr>;
                device_images = filter (\<lambda>img. device_id img = d) (image_metadata s2)
            in if length device_images > 20
               then (case remove_old (slice_to (sort_key upload_time device_images) (- 20)) s2 of
                       (Some e, s3) \<Rightarrow> (Inl e, s3)
                     | (None, s3) \<Rightarrow> (Inr fname, s3))
               else (Inr fname, s2))"

section \<open>Queries: \<^verbatim>\<open>get_device_images\<close>, \<^verbatim>\<open>get_latest_image\<close>\<close>

text \<open>The dictionary \<^verbatim>\<open>{"filename": ..., "upload_time": ..., "url": ...}\<close> of a
  response.\<close>

type_synonym image_info = "string \<times> datetime \<times> string"

definition image_info :: "ImageMetadata \<Rightarrow> image_info" where
  "image_info img = (filename img, upload_time img, ''/static/'' @ filename img)"


definition get_latest_image :: "string \<Rightarrow> state \<Rightarrow> (error + image_info) \<times> state" where
  "get_latest_image d s =
     (let device_images = filter (\<lambda>img. device_id img = d) (image_metadata s)
      in if device_images = [] then (Inl (HTTPException 404), s)
         else (case max_key upload_time device_images of
                 Inl e \<Rightarrow> (Inl e, s)
               | Inr latest_image \<Rightarrow> (Inr (image_info latest_image), s)))"

section \<open>Reconciliation: \<^verbatim>\<open>cleanup_orphaned\<close>\<close>

text \<open>
  The loop \<^verbatim>\<open>for filename in orphaned_files\<close>. The Python sets
  \<^verbatim>\<open>server_files\<close>, \<^verbatim>\<open>metadata_files\<close> and \<^verbatim>\<open>orphaned_files\<close> are lists without
  repetition here; the loop visits \<^verbatim>\<open>orphaned_files\<close> in the order of the list.
\<close>

fun remove_orphaned :: "string \<Rightarrow> string list \<Rightarrow> filesystem \<Rightarrow> nat \<Rightarrow> filesystem \<times> nat" where
  "remove_orphaned d [] fs removed_count = (fs, removed_count)"
| "remove_orphaned d (fname # rest) fs removed_count =
     (if startswith fname (d @ ''-'')
      then (case os_remove (os_path_join UPLOAD_DIR fname) fs of
              Inl _ \<Rightarrow> remove_orphaned d rest fs removed_count
            | Inr fs' \<Rightarrow> remove_orphaned d rest fs' (removed_count + 1))
      else remove_orphaned d rest fs removed_count)"

definition cleanup_orphaned :: "string \<Rightarrow> state \<Rightarrow> nat \<times> state" where
  "cleanup_orphaned d s =
     (let server_files = remdups (os_listdir UPLOAD_DIR (files s));
          metadata_files =
            remdups (map filename (filter (\<lambda>img. device_id img = d) (image_metadata s)));
          orphaned_files = filter (\<lambda>f. f \<notin> set metadata_files) server_files
      in case remove_orphaned d orphaned_files (files s) 0 of
           (fs, removed_count) \<Rightarrow> (removed_count, s\<lparr>files := fs\<rparr>))"

section \<open>Sequences of uploads\<close>

text \<open>A device that uploads one image after the other, with no other request in
  between: each element holds the two clock readings and the bytes of one upload.\<close>

fun upload_all ::
  "(string \<times> datetime \<times> bytes) list \<Rightarrow> string option \<Rightarrow> state \<Rightarrow> state" where
  "upload_all [] dev s = s"
| "upload_all ((ts, now, content) # rest) dev s =
     upload_all rest dev (snd (upload_image ts now content dev s))"

section \<open>The records of uploads\<close>

text \<open>The record that \<^const>\<open>upload_image\<close> appends for device \<open>d\<close>, time stamp
  \<open>ts\<close> and upload time \<open>now\<close>.\<close>

definition new_image :: "string \<Rightarrow> string \<Rightarrow> datetime \<Rightarrow> ImageMetadata" where
  "new_image d ts now =
     \<lparr>device_id = d, filename = d @ ''-'' @ ts @ ''.png'', upload_time = now,
      file_path = os_path_join UPLOAD_DIR (d @ ''-'' @ ts @ ''.png'')\<rparr>"

text \<open>The record that the ledger gets for one element of such a sequence.\<close>

definition uploaded :: "string \<Rightarrow> string \<times> datetime \<times> bytes \<Rightarrow> ImageMetadata" where
  "uploaded d u = new_image d (fst u) (fst (snd u))"

text \<open>A record is well formed when it is the record that \<^const>\<open>upload_image\<close>
  creates for its device: the file name is the device identifier, a hyphen, a time
  stamp of 15 characters (\<^verbatim>\<open>%Y%m%d_%H%M%S\<close>) and \<^verbatim>\<open>.png\<close>, and the path is that
  name in the upload directory.\<close>

definition well_formed :: "ImageMetadata \<Rightarrow> bool" where
  "well_formed img =
     (let ts = take 15 (drop (length (device_id img) + 1) (filename img))
      in length ts = 15 \<and> img = new_image (device_id img) ts (upload_time img))"

section \<open>Example states\<close>

definition example_registry :: registry where
  "example_registry =
     [(''pi-1'', \<lparr>status = ''offline'', last_seen = 1000000000 - timedelta_minutes 6\<rparr>),
      (''pi-2'', \<lparr>status = ''online'', last_seen = 1000000000 - timedelta_minutes 6\<rparr>),
      (''pi-3'', \<lparr>status = ''offline'', last_seen = 1000000000 - timedelta_minutes 1\<rparr>)]"

definition example_ledger :: "ImageMetadata list" where
  "example_ledger =
     [new_image ''cam'' ''20240101_120002'' 2000000,
      new_image ''door'' ''20240101_120002'' 2500000,
      new_image ''cam'' ''20240101_120003'' 3000000,
      new_image ''cam'' ''20240101_120001'' 1000000]"

definition example_state :: state where
  "example_state =
     \<lparr>device_status = example_registry,
      image_metadata = example_ledger,
      files = map (\<lambda>img. (file_path img, [])) example_ledger @
              [(''uploads/cam-20231231_235959.png'', []), (''uploads/notes.txt'', [])]\<rparr>"

text \<open>Twenty-two uploads of one device, the first two within the same second
  (0.1 s and 0.6 s after 12:00:00), the others one second apart.\<close>

definition burst_uploads :: "(string \<times> datetime \<times> bytes) list" where
  "burst_uploads =
     [(''20240101_120000'', 100000, []), (''20240101_120000'', 600000, []),
      (''20240101_120001'', 1100000, []), (''20240101_120002'', 2100000, []),
      (''20240101_120003'', 3100000, []), (''20240101_120004'', 4100000, []),
      (''20240101_120005'', 5100000, []), (''20240101_120006'', 6100000, []),
      (''20240101_120007'', 7100000, []), (''20240101_120008'', 8100000, []),
      (''20240101_120009'', 9100000, []), (''20240101_120010'', 10100000, []),
      (''20240101_120011'', 11100000, []), (''20240101_120012'', 12100000, []),
      (''20240101_120013'', 13100000, []), (''20240101_120014'', 14100000, []),
      (''20240101_120015'', 15100000, []), (''20240101_120016'', 16100000, []),
      (''20240101_120017'', 17100000, []), (''20240101_120018'', 18100000, []),
      (''20240101_120019'', 19100000, []), (''20240101_120020'', 20100000, [])]"


section \<open>Listing a device's images\<close>






section \<open>The latest image of a device\<close>

lemma max_from_mem: "max_from f b xs \<in> set (b # xs)"
  by (induction xs arbitrary: b) auto

lemma max_from_ge_best: "f b \<le> f (max_from f b xs)"
proof (induction xs arbitrary: b)
  case Nil
  show ?case by simp
next
  case (Cons x xs)
  have "f b \<le> f (if f b < f x then x else b)" by simp
  also have "\<dots> \<le> f (max_from f (if f b < f x then x else b) xs)" by (rule Cons.IH)
  finally show ?case by simp
qed

lemma max_from_ge: "y \<in> set (b # xs) \<Longrightarrow> f y \<le> f (max_from f b xs)"
proof (induction xs arbitrary: b)
  case Nil
  then show ?case by simp
next
  case (Cons x xs)
  let ?b' = "if f b < f x then x else b"
  from Cons.prems consider "y = b" | "y = x" | "y \<in> set xs" by auto
  then show ?case
  proof cases
    case 1
    have "f b \<le> f ?b'" by simp
    also have "\<dots> \<le> f (max_from f ?b' xs)" by (rule max_from_ge_best)
    finally show ?thesis using 1 by simp
  next
    case 2
    have "f x \<le> f ?b'" by simp
    also have "\<dots> \<le> f (max_from f ?b' xs)" by (rule max_from_ge_best)
    finally show ?thesis using 2 by simp
  next
    case 3
    then have "y \<in> set (?b' # xs)" by simp
    then have "f y \<le> f (max_from f ?b' xs)" by (rule Cons.IH)
    then show ?thesis by simp
  qed
qed

lemma max_key_Inr:
  "xs \<noteq> [] \<Longrightarrow> \<exists>m. max_key f xs = Inr m \<and> m \<in> set xs \<and> (\<forall>y\<in>set xs. f y \<le> f m)"
proof (cases xs)
  case Nil
  assume "xs \<noteq> []"
  with Nil show ?thesis by simp
next
  case (Cons x rest)
  have "max_from f x rest \<in> set xs" using max_from_mem [of f x rest] Cons by simp
  moreover have "\<forall>y\<in>set xs. f y \<le> f (max_from f x rest)"
    using max_from_ge [of _ x rest f] Cons by simp
  ultimately show ?thesis using Cons by (simp add: max_key_def)
qed

lemma get_latest_image_some:
  assumes "filter (\<lambda>img. device_id img = d) (image_metadata s) \<noteq> []"
  shows "\<exists>r\<in>set (image_metadata s). device_id r = d \<and>
           get_latest_image d s = (Inr (image_info r), s) \<and>
           (\<forall>r'\<in>set (image_metadata s). device_id r' = d \<longrightarrow> upload_time r' \<le> upload_time r)"
proof -
  let ?recs = "filter (\<lambda>img. device_id img = d) (image_metadata s)"
  from max_key_Inr [OF assms, of upload_time] obtain m where
    m: "max_key upload_time ?recs = Inr m" "m \<in> set ?recs"
       "\<forall>y\<in>set ?recs. upload_time y \<le> upload_time m" by blast
  have "get_latest_image d s = (Inr (image_info m), s)"
    using assms m(1) by (simp add: get_latest_image_def)
  with m(2,3) show ?thesis by auto
qed

text \<open>
  Claim C7. \<^const>\<open>get_latest_image\<close> answers 404 exactly when the ledger holds no
  record of the device. Otherwise it answers with a record of the device whose upload
  time is greatest among the device's records; the answer is the same for every
  order of the ledger when the device's upload times are pairwise different; and the
  state is returned as it was.
\<close>

theorem get_latest_image_spec:
  "(fst (get_latest_image d s) = Inl (HTTPException 404) \<longleftrightarrow>
      filter (\<lambda>img. device_id img = d) (image_metadata s) = []) \<and>
   (filter (\<lambda>img. device_id img = d) (image_metadata s) \<noteq> [] \<longrightarrow>
      (\<exists>r\<in>set (image_metadata s). device_id r = d \<and>
         fst (get_latest_image d s) = Inr (image_info r) \<and>
         (\<forall>r'\<in>set (image_metadata s). device_id r' = d \<longrightarrow>
            upload_time r' \<le> upload_time r))) \<and>
   (\<forall>s'. mset (image_metadata s') = mset (image_metadata s) \<and>
         inj_on upload_time {r \<in> set (image_metadata s). device_id r = d} \<longrightarrow>
         fst (get_latest_image d s') = fst (get_latest_image d s)) \<and>
   snd (get_latest_image d s) = s"
proof -
  let ?recs = "\<lambda>s. filter (\<lambda>img. device_id img = d) (image_metadata s)"
  have none: "fst (get_latest_image d s) = Inl (HTTPException 404)" if "?recs s = []"
    using that by (simp add: get_latest_image_def)
  have some: "\<exists>r\<in>set (image_metadata s). device_id r = d \<and>
         fst (get_latest_image d s) = Inr (image_info r) \<and>
         (\<forall>r'\<in>set (image_metadata s). device_id r' = d \<longrightarrow>
            upload_time r' \<le> upload_time r)" if "?recs s \<noteq> []"
    using get_latest_image_some [OF that] by auto
  have iff: "fst (get_latest_image d s) = Inl (HTTPException 404) \<longleftrightarrow> ?recs s = []"
    using none some by (cases "?recs s = []") auto
  have pure: "snd (get_latest_image d s) = s"
    by (simp add: get_latest_image_def Let_def split: sum.splits)
  have order: "fst (get_latest_image d s') = fst (get_latest_image d s)"
    if perm: "mset (image_metadata s') = mset (image_metadata s)"
      and inj: "inj_on upload_time {r \<in> set (image_metadata s). device_id r = d}" for s'
  proof -
    have sets: "set (image_metadata s') = set (image_metadata s)"
      using perm by (rule mset_eq_setD)
    show ?thesis
    proof (cases "?recs s = []")
      case True
      then have "?recs s' = []" using sets by (simp add: filter_empty_conv)
      with True show ?thesis by (simp add: get_latest_image_def)
    next
      case False
      then have False': "?recs s' \<noteq> []" using sets by (simp add: filter_empty_conv)
      from get_latest_image_some [OF False] obtain r where
        r: "r \<in> set (image_metadata s)" "device_id r = d"
           "get_latest_image d s = (Inr (image_info r), s)"
           "\<forall>r'\<in>set (image_metadata s). device_id r' = d \<longrightarrow> upload_time r' \<le> upload_time r"
        by blast
      from get_latest_image_some [OF False'] obtain r' where
        r': "r' \<in> set (image_metadata s')" "device_id r' = d"
           "get_latest_image d s' = (Inr (image_info r'), s')"
           "\<forall>x\<in>set (image_metadata s'). device_id x = d \<longrightarrow> upload_time x \<le> upload_time r'"
        by blast
      have "upload_time r' \<le> upload_time r" using r(4) r'(1,2) sets by auto
      moreover have "upload_time r \<le> upload_time r'" using r'(4) r(1,2) sets by auto
      ultimately have "upload_time r = upload_time r'" by simp
      with inj r(1,2) r'(1,2) sets have "r = r'" by (auto dest: inj_onD)
      with r(3) r'(3) show ?thesis by simp
    qed
  qed
  show ?thesis using iff some order pure by blast
qed

theorem get_latest_image_spec_witness:
  "filter (\<lambda>img. device_id img = ''cam'') (image_metadata example_state) \<noteq> [] \<and>
   mset (image_metadata (example_state\<lparr>image_metadata := rev example_ledger\<rparr>)) =
     mset (image_metadata example_state) \<and>
   inj_on upload_time {r \<in> set (image_metadata example_state). device_id r = ''cam''} \<and>
   fst (get_latest_image ''cam'' example_state) =
     Inr (image_info (new_image ''cam'' ''20240101_120003'' 3000000)) \<and>
   fst (get_latest_image ''cam'' (example_state\<lparr>image_metadata := rev example_ledger\<rparr>)) =
     Inr (image_info (new_image ''cam'' ''20240101_120003'' 3000000))"
proof -
  let ?s' = "example_state\<lparr>image_metadata := rev example_ledger\<rparr>"
  have ne: "filter (\<lambda>img. device_id img = ''cam'') (image_metadata example_state) \<noteq> []"
    by (simp add: example_state_def example_ledger_def new_image_def)
  have perm: "mset (image_metadata ?s') = mset (image_metadata example_state)"
    by (simp add: example_state_def)
  have "distinct (map upload_time
          (filter (\<lambda>r. device_id r = ''cam'') (image_metadata example_state)))"
    by (simp add: example_state_def example_ledger_def new_image_def)
  then have "inj_on upload_time
          (set (filter (\<lambda>r. device_id r = ''cam'') (image_metadata example_state)))"
    by (simp only: distinct_map)
  then have inj:
    "inj_on upload_time {r \<in> set (image_metadata example_state). device_id r = ''cam''}"
    by (simp only: set_filter)
  have val: "fst (get_latest_image ''cam'' example_state) =
      Inr (image_info (new_image ''cam'' ''20240101_120003'' 3000000))"
    by (simp add: example_state_def example_ledger_def new_image_def get_latest_image_def
        max_key_def)
  from get_latest_image_spec [of "''cam''" example_state] perm inj
  have "fst (get_latest_image ''cam'' ?s') = fst (get_latest_image ''cam'' example_state)"
    by blast
  with ne perm inj val show ?thesis by simp
qed

section \<open>The expiry sweep of the device registry\<close>

lemma delete_as_filter: "AList.delete k ds = filter (\<lambda>(k', v). k' \<noteq> k) ds"
  by (induction ds) auto

lemma del_devices_filter:
  "distinct ks \<Longrightarrow> set ks \<subseteq> fst ` set ds \<Longrightarrow>
   del_devices ks ds = (None, filter (\<lambda>(k, v). k \<notin> set ks) ds)"
proof (induction ks arbitrary: ds)
  case Nil
  then show ?case by simp
next
  case (Cons k ks)
  from Cons.prems have k: "k \<in> fst ` set ds" and nk: "k \<notin> set ks" and dks: "distinct ks"
    by auto
  from k obtain v where v: "map_of ds k = Some v"
    by (metis domD dom_map_of_conv_image_fst)
  have sub: "set ks \<subseteq> fst ` set (AList.delete k ds)"
  proof
    fix x assume x: "x \<in> set ks"
    with Cons.prems obtain w where "(x, w) \<in> set ds" by force
    moreover from x nk have "x \<noteq> k" by auto
    ultimately have "(x, w) \<in> set (AList.delete k ds)" by (simp add: delete_as_filter)
    then show "x \<in> fst ` set (AList.delete k ds)" by force
  qed
  have "del_devices ks (AList.delete k ds) =
          (None, filter (\<lambda>(k, v). k \<notin> set ks) (AList.delete k ds))"
    by (rule Cons.IH [OF dks sub])
  also have "filter (\<lambda>(k, v). k \<notin> set ks) (AList.delete k ds) =
               filter (\<lambda>(k', v). k' \<notin> set (k # ks)) ds"
    by (auto simp: delete_as_filter intro: filter_cong)
  finally show ?case using v by simp
qed

lemma expired_keys:
  assumes "distinct (map fst ds)"
  shows "filter (\<lambda>(k, v). k \<notin> set (map fst (filter P ds))) ds = filter (\<lambda>kv. \<not> P kv) ds"
proof (rule filter_cong [OF refl])
  fix kv assume mem: "kv \<in> set ds"
  obtain k v where kv: "kv = (k, v)" by (cases kv)
  have "k \<in> fst ` set (filter P ds) \<longleftrightarrow> P (k, v)"
  proof
    assume "k \<in> fst ` set (filter P ds)"
    then obtain v' where v': "(k, v') \<in> set ds" "P (k, v')" by auto
    from assms mem kv v'(1) have "v' = v" by (meson eq_key_imp_eq_value)
    with v'(2) show "P (k, v)" by simp
  next
    assume "P (k, v)"
    with mem kv show "k \<in> fst ` set (filter P ds)" by force
  qed
  then show "(case kv of (k, v) \<Rightarrow> k \<notin> set (map fst (filter P ds))) = (\<not> P kv)"
    using kv by simp
qed

lemma get_devices_sweep:
  assumes "distinct (map fst (device_status s))"
  shows "get_devices now s =
    (Inr (filter (\<lambda>(dev, st). \<not> expired (now - timedelta_minutes 5) st) (device_status s)),
     s\<lparr>device_status :=
         filter (\<lambda>(dev, st). \<not> expired (now - timedelta_minutes 5) st) (device_status s)\<rparr>)"
proof -
  let ?P = "\<lambda>(dev :: string, st). expired (now - timedelta_minutes 5) st"
  let ?ks = "map fst (filter ?P (device_status s))"
  have d: "distinct ?ks" using assms by (simp add: distinct_map_filter)
  have sub: "set ?ks \<subseteq> fst ` set (device_status s)" by auto
  have "del_devices ?ks (device_status s) =
          (None, filter (\<lambda>(k, v). k \<notin> set ?ks) (device_status s))"
    by (rule del_devices_filter [OF d sub])
  also have "filter (\<lambda>(k, v). k \<notin> set ?ks) (device_status s) =
               filter (\<lambda>kv. \<not> ?P kv) (device_status s)"
    by (rule expired_keys [OF assms])
  also have "\<dots> = filter (\<lambda>(dev, st). \<not> expired (now - timedelta_minutes 5) st) (device_status s)"
    by (rule filter_cong) auto
  finally show ?thesis by (simp add: get_devices_def Let_def)
qed

text \<open>A dictionary has one entry per key. The empty registry has, and heartbeats and
  sweeps keep it so.\<close>

lemma heartbeat_distinct:
  "distinct (map fst (device_status s)) \<Longrightarrow>
   distinct (map fst (device_status (heartbeat now dev st s)))"
  by (simp add: heartbeat_def distinct_update)

lemma get_devices_distinct:
  "distinct (map fst (device_status s)) \<Longrightarrow>
   distinct (map fst (device_status (snd (get_devices now s))))"
  by (simp add: get_devices_sweep distinct_map_filter)

text \<open>
  Claim C5. On a registry with one entry per device, \<^const>\<open>get_devices\<close> raises
  nothing, removes exactly the entries with status \<open>offline\<close> whose \<open>last_seen\<close> lies
  before \<open>now\<close> less five minutes, and returns the entries that remain, which are the
  new registry. A device that is offline and was last seen six minutes ago is absent
  from the result; one that is online and was last seen six minutes ago is still there.
\<close>

theorem get_devices_expiry:
  "distinct (map fst (device_status s)) \<Longrightarrow>
   get_devices now s =
     (Inr (filter (\<lambda>(dev, st). \<not> (status st = ''offline'' \<and>
                                    last_seen st < now - timedelta_minutes 5))
             (device_status s)),
      s\<lparr>device_status :=
          filter (\<lambda>(dev, st). \<not> (status st = ''offline'' \<and>
                                   last_seen st < now - timedelta_minutes 5))
            (device_status s)\<rparr>) \<and>
   ((dev, \<lparr>status = ''offline'', last_seen = now - timedelta_minutes 6\<rparr>)
        \<in> set (device_status s) \<longrightarrow>
      (\<exists>ds. fst (get_devices now s) = Inr ds \<and> map_of ds dev = None)) \<and>
   ((dev', \<lparr>status = ''online'', last_seen = now - timedelta_minutes 6\<rparr>)
        \<in> set (device_status s) \<longrightarrow>
      (\<exists>ds. fst (get_devices now s) = Inr ds \<and>
         map_of ds dev' = Some \<lparr>status = ''online'', last_seen = now - timedelta_minutes 6\<rparr>))"
proof -
  assume dist: "distinct (map fst (device_status s))"
  let ?keep = "\<lambda>(dev :: string, st). \<not> (status st = ''offline'' \<and>
                                    last_seen st < now - timedelta_minutes 5)"
  let ?ds = "filter ?keep (device_status s)"
  have sweep: "get_devices now s = (Inr ?ds, s\<lparr>device_status := ?ds\<rparr>)"
    using get_devices_sweep [OF dist, of now] by (simp add: expired_def)
  have dist': "distinct (map fst ?ds)" using dist by (simp add: distinct_map_filter)
  have off: "map_of ?ds dev = None"
    if mem: "(dev, \<lparr>status = ''offline'', last_seen = now - timedelta_minutes 6\<rparr>)
               \<in> set (device_status s)"
  proof (rule ccontr)
    assume "map_of ?ds dev \<noteq> None"
    then obtain v where "map_of ?ds dev = Some v" by auto
    then have v: "(dev, v) \<in> set ?ds" by (rule map_of_SomeD)
    then have "(dev, v) \<in> set (device_status s)" by simp
    with dist mem have "v = \<lparr>status = ''offline'', last_seen = now - timedelta_minutes 6\<rparr>"
      by (meson eq_key_imp_eq_value)
    with v show False by (simp add: timedelta_minutes_def)
  qed
  have on: "map_of ?ds dev' = Some \<lparr>status = ''online'', last_seen = now - timedelta_minutes 6\<rparr>"
    if mem: "(dev', \<lparr>status = ''online'', last_seen = now - timedelta_minutes 6\<rparr>)
               \<in> set (device_status s)"
  proof -
    from mem have "(dev', \<lparr>status = ''online'', last_seen = now - timedelta_minutes 6\<rparr>) \<in> set ?ds"
      by simp
    with dist' show ?thesis by (rule map_of_is_SomeI)
  qed
  show ?thesis using sweep off on by simp
qed

theorem get_devices_expiry_witness:
  "distinct (map fst (device_status example_state)) \<and>
   (''pi-1'', \<lparr>status = ''offline'', last_seen = 1000000000 - timedelta_minutes 6\<rparr>)
      \<in> set (device_status example_state) \<and>
   (''pi-2'', \<lparr>status = ''online'', last_seen = 1000000000 - timedelta_minutes 6\<rparr>)
      \<in> set (device_status example_state) \<and>
   fst (get_devices 1000000000 example_state) =
     Inr [(''pi-2'', \<lparr>status = ''online'', last_seen = 1000000000 - timedelta_minutes 6\<rparr>),
          (''pi-3'', \<lparr>status = ''offline'', last_seen = 1000000000 - timedelta_minutes 1\<rparr>)]"
  using get_devices_expiry [of example_state 1000000000 "''pi-1''" "''pi-2''"]
  by (simp add: example_state_def example_registry_def timedelta_minutes_def)

text \<open>
  Claim C8. The number of online devices that \<^const>\<open>get_system_status\<close> reports is
  the number of online entries that an expiry sweep at the same instant retains.
\<close>

theorem count_online_after_sweep:
  "distinct (map fst (device_status s)) \<Longrightarrow>
   \<exists>ds. fst (get_devices now s) = Inr ds \<and>
        online_devices (get_system_status now s) =
          length (filter (\<lambda>st. status st = ''online'') (map snd ds))"
proof -
  assume dist: "distinct (map fst (device_status s))"
  let ?keep = "\<lambda>(dev :: string, st). \<not> expired (now - timedelta_minutes 5) st"
  let ?ds = "filter ?keep (device_status s)"
  have sweep: "fst (get_devices now s) = Inr ?ds"
    using get_devices_sweep [OF dist, of now] by simp
  have "filter (\<lambda>st. status st = ''online'') (map snd ?ds) =
        map snd (filter (\<lambda>kv. ?keep kv \<and> status (snd kv) = ''online'') (device_status s))"
    by (simp add: filter_map comp_def conj_commute)
  also have "filter (\<lambda>kv. ?keep kv \<and> status (snd kv) = ''online'') (device_status s) =
             filter (\<lambda>kv. status (snd kv) = ''online'') (device_status s)"
    by (rule filter_cong) (auto simp: expired_def)
  also have "map snd \<dots> = filter (\<lambda>st. status st = ''online'') (map snd (device_status s))"
    by (simp add: filter_map comp_def)
  finally have "length (filter (\<lambda>st. status st = ''online'') (map snd ?ds)) =
      online_devices (get_system_status now s)"
    by (simp add: get_system_status_def)
  with sweep show ?thesis by auto
qed

theorem count_online_after_sweep_witness:
  "distinct (map fst (device_status example_state)) \<and>
   fst (get_devices 1000000000 example_state) =
     Inr [(''pi-2'', \<lparr>status = ''online'', last_seen = 1000000000 - timedelta_minutes 6\<rparr>),
          (''pi-3'', \<lparr>status = ''offline'', last_seen = 1000000000 - timedelta_minutes 1\<rparr>)] \<and>
   online_devices (get_system_status 1000000000 example_state) = 1"
  using count_online_after_sweep [of example_state 1000000000]
  by (simp add: example_state_def example_registry_def timedelta_minutes_def
      get_system_status_def get_devices_def expired_def)

section \<open>Paths and the files they name\<close>

lemma split_path_plain: "CHR ''/'' \<notin> set n \<Longrightarrow> split_path cur n = [cur @ n]"
  by (induction n arbitrary: cur) auto

lemma split_path_no_slash:
  "CHR ''/'' \<notin> set cur \<Longrightarrow> \<forall>c\<in>set (split_path cur p). CHR ''/'' \<notin> set c"
  by (induction cur p rule: split_path.induct) simp_all

lemma walk_subset: "set (walk a dirs cs) \<subseteq> set dirs \<union> set cs"
proof (induction cs arbitrary: dirs)
  case Nil
  show ?case by simp
next
  case (Cons c cs)
  have bl: "set (butlast dirs) \<subseteq> set dirs" by (auto dest: in_set_butlastD)
  show ?case
  proof (cases "c = [] \<or> c = ''.''")
    case True
    then have "walk a dirs (c # cs) = walk a dirs cs" by auto
    with Cons.IH [of dirs] show ?thesis by auto
  next
    case False
    note nskip = this
    show ?thesis
    proof (cases "c = ''..''")
      case False
      with nskip have "walk a dirs (c # cs) = walk a (dirs @ [c]) cs" by simp
      with Cons.IH [of "dirs @ [c]"] show ?thesis by auto
    next
      case True
      note up = this
      show ?thesis
      proof (cases "dirs \<noteq> [] \<and> last dirs \<noteq> ''..''")
        case True
        with up have "walk a dirs (c # cs) = walk a (butlast dirs) cs" by simp
        with Cons.IH [of "butlast dirs"] bl show ?thesis by auto
      next
        case False
        show ?thesis
        proof (cases a)
          case True
          with False up have "walk a dirs (c # cs) = walk a dirs cs" by auto
          with Cons.IH [of dirs] show ?thesis by auto
        next
          case na: False
          with False up have "walk a dirs (c # cs) = walk a (dirs @ [c]) cs" by auto
          with Cons.IH [of "dirs @ [c]"] show ?thesis by auto
        qed
      qed
    qed
  qed
qed

lemma resolve_no_slash: "c \<in> set (snd (resolve p)) \<Longrightarrow> CHR ''/'' \<notin> set c"
proof -
  assume "c \<in> set (snd (resolve p))"
  then have "c \<in> set (split_path [] p)"
    using walk_subset [of _ "[]" "split_path [] p"] by (auto simp: resolve_def Let_def)
  then show ?thesis using split_path_no_slash [of "[]" p] by simp
qed

lemma resolve_upload_dir: "resolve UPLOAD_DIR = (False, [''uploads''])"
  by (simp add: resolve_def UPLOAD_DIR_def)

lemma os_path_join_plain:
  "CHR ''/'' \<notin> set n \<Longrightarrow> os_path_join UPLOAD_DIR n = UPLOAD_DIR @ ''/'' @ n"
  by (cases n) (auto simp: os_path_join_def UPLOAD_DIR_def)

lemma resolve_in_upload_dir:
  assumes "CHR ''/'' \<notin> set n" and "n \<noteq> []" and "n \<noteq> ''.''" and "n \<noteq> ''..''"
  shows "resolve (os_path_join UPLOAD_DIR n) = (False, [''uploads'', n])"
proof -
  have join: "os_path_join UPLOAD_DIR n = ''uploads/'' @ n"
    using os_path_join_plain [OF assms(1)] by (simp add: UPLOAD_DIR_def)
  have "split_path [] (''uploads/'' @ n) = [''uploads'', n]"
    using assms(1) by (simp add: split_path_plain)
  then show ?thesis
    unfolding join using assms(2-4) by (simp add: resolve_def)
qed

lemma same_file_refl: "same_file p p"
  by (simp add: same_file_def)

lemma same_file_trans: "same_file p q \<Longrightarrow> same_file q r \<Longrightarrow> same_file p r"
  by (simp add: same_file_def)

lemma same_file_sym: "same_file p q \<Longrightarrow> same_file q p"
  by (simp add: same_file_def)

lemma lookup_file_Nil: "lookup_file q [] = None"
  by (simp add: lookup_file_def)

lemma lookup_file_Cons:
  "lookup_file q ((k, v) # fs) = (if same_file k q then Some v else lookup_file q fs)"
  by (simp add: lookup_file_def same_file_def)

lemma lookup_file_None:
  "lookup_file p fs = None \<longleftrightarrow> (\<forall>k\<in>fst ` set fs. \<not> same_file k p)"
  by (induction fs) (auto simp: lookup_file_Nil lookup_file_Cons split: if_splits)

lemma lookup_file_raw: "lookup_file p fs = None \<Longrightarrow> map_of fs p = None"
proof (rule ccontr)
  assume none: "lookup_file p fs = None" and "map_of fs p \<noteq> None"
  then have "p \<in> fst ` set fs" by (simp add: map_of_eq_None_iff)
  with none show False using same_file_refl by (auto simp: lookup_file_None)
qed

lemma keys_filter: "fst ` set (filter (\<lambda>(k, v). P k) fs) = {k \<in> fst ` set fs. P k}"
  by force

lemma open_wb_keys:
  "fst ` set (open_wb p c fs) =
     (if lookup_file p fs = None then insert p (fst ` set fs) else fst ` set fs)"
  by (cases "lookup_file p fs") (force simp: open_wb_def)+

lemma open_wb_present:
  assumes "lookup_file q fs \<noteq> None \<or> same_file p q"
  shows "lookup_file q (open_wb p c fs) \<noteq> None"
proof -
  have "\<exists>k\<in>fst ` set (open_wb p c fs). same_file k q"
  proof (cases "lookup_file q fs = None")
    case False
    then obtain k where "k \<in> fst ` set fs" "same_file k q" by (auto simp: lookup_file_None)
    then show ?thesis by (auto simp: open_wb_keys)
  next
    case True
    with assms have pq: "same_file p q" by simp
    show ?thesis
    proof (cases "lookup_file p fs = None")
      case True
      with pq show ?thesis by (auto simp: open_wb_keys)
    next
      case False
      then obtain k where "k \<in> fst ` set fs" "same_file k p" by (auto simp: lookup_file_None)
      with pq False show ?thesis by (auto simp: open_wb_keys intro: same_file_trans)
    qed
  qed
  then show ?thesis by (auto simp: lookup_file_None)
qed

lemma os_remove_present:
  "lookup_file p fs \<noteq> None \<Longrightarrow>
   os_remove p fs = Inr (filter (\<lambda>(k, v). \<not> same_file k p) fs)"
  by (auto simp: os_remove_def)

lemma os_remove_absent: "lookup_file p fs = None \<Longrightarrow> os_remove p fs = Inl FileNotFoundError"
  by (simp add: os_remove_def)

lemma removed_absent: "lookup_file p (filter (\<lambda>(k, v). \<not> same_file k p) fs) = None"
  by (auto simp: lookup_file_None)

section \<open>Reconciliation of the blob store with the ledger\<close>

lemma os_listdir_mem:
  "n \<in> set (os_listdir dir fs) \<longleftrightarrow>
     (\<exists>k\<in>fst ` set fs. snd (resolve k) \<noteq> [] \<and>
        (fst (resolve k), butlast (snd (resolve k))) = resolve dir \<and>
        n = last (snd (resolve k)))"
  by (auto simp: os_listdir_def)

lemma startswith_proper:
  "startswith n (d @ ''-'') \<Longrightarrow> n \<noteq> [] \<and> n \<noteq> ''.'' \<and> n \<noteq> ''..''"
proof -
  assume "startswith n (d @ ''-'')"
  then obtain r where "n = (d @ ''-'') @ r" by (auto simp: startswith_def prefix_def)
  then have "CHR ''-'' \<in> set n" by simp
  then show ?thesis by auto
qed

lemma listed_same_file:
  assumes "snd (resolve k) \<noteq> []"
    and "(fst (resolve k), butlast (snd (resolve k))) = resolve UPLOAD_DIR"
    and "n = last (snd (resolve k))"
    and "startswith n (d @ ''-'')"
  shows "same_file k (os_path_join UPLOAD_DIR n)"
proof -
  from assms(1,3) have "n \<in> set (snd (resolve k))" by simp
  then have slash: "CHR ''/'' \<notin> set n" by (rule resolve_no_slash)
  from assms(1,3) have "snd (resolve k) = butlast (snd (resolve k)) @ [n]" by simp
  with assms(2) have "resolve k = (False, [''uploads'', n])"
    by (cases "resolve k") (auto simp: resolve_upload_dir)
  moreover from startswith_proper [OF assms(4)] slash
  have "resolve (os_path_join UPLOAD_DIR n) = (False, [''uploads'', n])"
    by (simp add: resolve_in_upload_dir)
  ultimately show ?thesis by (simp add: same_file_def)
qed

lemma remove_orphaned_skip:
  "\<forall>n\<in>set names. \<not> startswith n (d @ ''-'') \<Longrightarrow>
   remove_orphaned d names fs c = (fs, c)"
  by (induction names arbitrary: fs c) auto

lemma remove_orphaned_files:
  "fst ` set (fst (remove_orphaned d names fs c)) =
     {k \<in> fst ` set fs. \<forall>n\<in>set names.
        startswith n (d @ ''-'') \<longrightarrow> \<not> same_file k (os_path_join UPLOAD_DIR n)}"
proof (induction names arbitrary: fs c)
  case Nil
  show ?case by simp
next
  case (Cons n names)
  let ?keep = "\<lambda>ns k. \<forall>n\<in>set ns.
        startswith n (d @ ''-'') \<longrightarrow> \<not> same_file k (os_path_join UPLOAD_DIR n)"
  show ?case
  proof (cases "startswith n (d @ ''-'')")
    case False
    then have step: "remove_orphaned d (n # names) fs c = remove_orphaned d names fs c"
      by simp
    from False have sets: "{k \<in> fst ` set fs. ?keep (n # names) k} =
        {k \<in> fst ` set fs. ?keep names k}" by auto
    show ?thesis unfolding step sets by (rule Cons.IH)
  next
    case True
    let ?p = "os_path_join UPLOAD_DIR n"
    show ?thesis
    proof (cases "lookup_file ?p fs = None")
      case none: True
      with True have step: "remove_orphaned d (n # names) fs c = remove_orphaned d names fs c"
        by (simp add: os_remove_absent)
      from none have sets: "{k \<in> fst ` set fs. ?keep (n # names) k} =
          {k \<in> fst ` set fs. ?keep names k}"
        by (auto simp: lookup_file_None)
      show ?thesis unfolding step sets by (rule Cons.IH)
    next
      case False
      let ?fs = "filter (\<lambda>(k, v). \<not> same_file k ?p) fs"
      from True False have step: "remove_orphaned d (n # names) fs c =
          remove_orphaned d names ?fs (c + 1)"
        by (simp add: os_remove_present)
      have sets: "{k \<in> fst ` set fs. ?keep (n # names) k} =
          {k \<in> fst ` set ?fs. ?keep names k}"
        using True by (auto simp: keys_filter)
      show ?thesis unfolding step sets by (rule Cons.IH)
    qed
  qed
qed

text \<open>
  Claim C6. A second run of \<^const>\<open>cleanup_orphaned\<close> for the same device, on the
  state the first run leaves, removes no file: it reports 0 and returns the state as
  it was.
\<close>

theorem cleanup_orphaned_twice:
  "cleanup_orphaned d (snd (cleanup_orphaned d s)) = (0, snd (cleanup_orphaned d s))"
proof -
  let ?meta = "remdups (map filename (filter (\<lambda>img. device_id img = d) (image_metadata s)))"
  let ?orph = "\<lambda>fs. filter (\<lambda>f. f \<notin> set ?meta) (remdups (os_listdir UPLOAD_DIR fs))"
  let ?fs' = "fst (remove_orphaned d (?orph (files s)) (files s) 0)"
  let ?s' = "s\<lparr>files := ?fs'\<rparr>"
  have first: "snd (cleanup_orphaned d s) = ?s'"
    by (simp add: cleanup_orphaned_def Let_def split: prod.splits)
  have keys: "fst ` set ?fs' = {k \<in> fst ` set (files s). \<forall>n\<in>set (?orph (files s)).
        startswith n (d @ ''-'') \<longrightarrow> \<not> same_file k (os_path_join UPLOAD_DIR n)}"
    by (rule remove_orphaned_files)
  have none: "\<forall>n\<in>set (?orph ?fs'). \<not> startswith n (d @ ''-'')"
  proof (intro ballI notI)
    fix n assume n: "n \<in> set (?orph ?fs')" and pre: "startswith n (d @ ''-'')"
    from n have listed: "n \<in> set (os_listdir UPLOAD_DIR ?fs')" and nometa: "n \<notin> set ?meta"
      by auto
    from listed obtain k where k: "k \<in> fst ` set ?fs'" "snd (resolve k) \<noteq> []"
        "(fst (resolve k), butlast (snd (resolve k))) = resolve UPLOAD_DIR"
        "n = last (snd (resolve k))"
      unfolding os_listdir_mem by blast
    from k(1) keys have kfs: "k \<in> fst ` set (files s)" by blast
    with k(2-4) have "n \<in> set (os_listdir UPLOAD_DIR (files s))"
      unfolding os_listdir_mem by blast
    with nometa have "n \<in> set (?orph (files s))" by simp
    with k(1) keys pre have "\<not> same_file k (os_path_join UPLOAD_DIR n)" by blast
    moreover from k(2-4) pre have "same_file k (os_path_join UPLOAD_DIR n)"
      by (rule listed_same_file)
    ultimately show False by simp
  qed
  have "remove_orphaned d (?orph ?fs') ?fs' 0 = (?fs', 0)"
    by (rule remove_orphaned_skip [OF none])
  then have "cleanup_orphaned d ?s' = (0, ?s')"
    by (simp add: cleanup_orphaned_def Let_def)
  with first show ?thesis by simp
qed

theorem cleanup_orphaned_twice_witness:
  "fst (cleanup_orphaned ''cam'' example_state) = 1 \<and>
   map_of (files (snd (cleanup_orphaned ''cam'' example_state)))
     ''uploads/cam-20231231_235959.png'' = None \<and>
   cleanup_orphaned ''cam'' (snd (cleanup_orphaned ''cam'' example_state)) =
     (0, snd (cleanup_orphaned ''cam'' example_state))"
proof -
  have "fst (cleanup_orphaned ''cam'' example_state) = 1" by code_simp
  moreover have "map_of (files (snd (cleanup_orphaned ''cam'' example_state)))
     ''uploads/cam-20231231_235959.png'' = None" by code_simp
  ultimately show ?thesis using cleanup_orphaned_twice [of "''cam''" example_state] by simp
qed

text \<open>
  Claim C2, at its failing input. Device \<open>cam-2\<close> uploads one image; its blob is in
  the store and its record in the ledger. A reconciliation for device \<open>cam\<close> then
  deletes that blob, since its name starts with \<open>cam-\<close> and no record of \<open>cam\<close>
  names it: the reconciliation reports one file removed and leaves the ledger record
  of \<open>cam-2\<close> without its file.
\<close>

theorem cleanup_orphaned_deletes_foreign_blob:
  "upload_image ''20240101_120000'' 100000 [] (Some ''cam-2'') initial_state =
     (Inr ''cam-2-20240101_120000.png'',
      \<lparr>device_status = [],
       image_metadata = [new_image ''cam-2'' ''20240101_120000'' 100000],
       files = [(''uploads/cam-2-20240101_120000.png'', [])]\<rparr>) \<and>
   cleanup_orphaned ''cam''
     \<lparr>device_status = [],
      image_metadata = [new_image ''cam-2'' ''20240101_120000'' 100000],
      files = [(''uploads/cam-2-20240101_120000.png'', [])]\<rparr> =
     (1, \<lparr>device_status = [],
          image_metadata = [new_image ''cam-2'' ''20240101_120000'' 100000],
          files = []\<rparr>)"
  by code_simp

section \<open>Uploads and the cap of 20 images\<close>

lemma upload_image_below_cap:
  assumes "d \<noteq> []"
    and "length (filter (\<lambda>img. device_id img = d) (image_metadata s)) < 20"
  shows "upload_image ts now c (Some d) s =
    (Inr (d @ ''-'' @ ts @ ''.png''),
     s\<lparr>files := open_wb (file_path (new_image d ts now)) c (files s),
       image_metadata := image_metadata s @ [new_image d ts now]\<rparr>)"
  using assms by (simp add: upload_image_def Let_def new_image_def)

lemma upload_all_append:
  "upload_all (xs @ ys) dev s = upload_all ys dev (upload_all xs dev s)"
  by (induction xs dev s rule: upload_all.induct) simp_all

lemma upload_all_below_cap:
  assumes "d \<noteq> []"
  shows "length (filter (\<lambda>img. device_id img = d) (image_metadata s)) + length ups \<le> 20 \<Longrightarrow>
    image_metadata (upload_all ups (Some d) s) = image_metadata s @ map (uploaded d) ups \<and>
    (\<forall>q. lookup_file q (files s) \<noteq> None \<or> q \<in> file_path ` uploaded d ` set ups \<longrightarrow>
       lookup_file q (files (upload_all ups (Some d) s)) \<noteq> None)"
proof (induction ups arbitrary: s)
  case Nil
  show ?case by simp
next
  case (Cons u ups)
  obtain ts now c where u: "u = (ts, now, c)" by (cases u)
  let ?p = "file_path (new_image d ts now)"
  let ?s1 = "s\<lparr>files := open_wb ?p c (files s),
       image_metadata := image_metadata s @ [new_image d ts now]\<rparr>"
  from Cons.prems have lt: "length (filter (\<lambda>img. device_id img = d) (image_metadata s)) < 20"
    by simp
  have step: "upload_all (u # ups) (Some d) s = upload_all ups (Some d) ?s1"
    using upload_image_below_cap [OF assms lt, of ts now c] u by simp
  have dev: "device_id (new_image d ts now) = d" by (simp add: new_image_def)
  have "length (filter (\<lambda>img. device_id img = d) (image_metadata ?s1)) + length ups \<le> 20"
    using Cons.prems dev by simp
  from Cons.IH [OF this] have
    md: "image_metadata (upload_all ups (Some d) ?s1) = image_metadata ?s1 @ map (uploaded d) ups"
    and fs: "\<And>q. lookup_file q (files ?s1) \<noteq> None \<or> q \<in> file_path ` uploaded d ` set ups \<Longrightarrow>
      lookup_file q (files (upload_all ups (Some d) ?s1)) \<noteq> None"
    by blast+
  have up: "uploaded d u = new_image d ts now" using u by (simp add: uploaded_def)
  have "image_metadata (upload_all (u # ups) (Some d) s) =
      image_metadata s @ map (uploaded d) (u # ups)"
    unfolding step md using up by simp
  moreover have "lookup_file q (files (upload_all (u # ups) (Some d) s)) \<noteq> None"
    if q: "lookup_file q (files s) \<noteq> None \<or> q \<in> file_path ` uploaded d ` set (u # ups)" for q
  proof -
    from q consider "lookup_file q (files s) \<noteq> None" | "q = ?p"
      | "q \<in> file_path ` uploaded d ` set ups"
      using up by auto
    then have "lookup_file q (files ?s1) \<noteq> None \<or> q \<in> file_path ` uploaded d ` set ups"
    proof cases
      case 1
      then show ?thesis by (simp add: open_wb_present)
    next
      case 2
      then show ?thesis by (simp add: open_wb_present same_file_refl)
    next
      case 3
      then show ?thesis by simp
    qed
    then show ?thesis unfolding step by (rule fs)
  qed
  ultimately show ?case by blast
qed

lemma slice_to_last_20: "length xs = 21 \<Longrightarrow> slice_to xs (- 20) = [hd xs]"
  by (cases xs) (simp_all add: slice_to_def)

text \<open>
  Claim C4. A device without records in the ledger uploads 21 images one after the
  other, with strictly increasing upload times. Afterwards the ledger holds for the
  device exactly the records of uploads 2 to 21, in this order, and the file of
  upload 1 is not in the file system: the table has no entry under its path, and no
  entry under any other path that names the same file.
\<close>

theorem oldest_first_eviction:
  assumes "d \<noteq> []"
    and "length ups = 21"
    and "sorted_wrt (<) (map (\<lambda>u. fst (snd u)) ups)"
    and "filter (\<lambda>img. device_id img = d) (image_metadata s) = []"
  shows "filter (\<lambda>img. device_id img = d) (image_metadata (upload_all ups (Some d) s)) =
           map (uploaded d) (tl ups) \<and>
         map_of (files (upload_all ups (Some d) s)) (file_path (uploaded d (hd ups))) = None \<and>
         lookup_file (file_path (uploaded d (hd ups))) (files (upload_all ups (Some d) s)) = None"
proof -
  let ?P = "\<lambda>img. device_id img = d"
  from assms(2) obtain u1 rest where ups: "ups = u1 # rest" and lrest: "length rest = 20"
    by (cases ups) auto
  from lrest obtain mid u21 where rest: "rest = mid @ [u21]" and lmid: "length mid = 19"
    by (cases rest rule: rev_cases) auto
  let ?first = "u1 # mid"
  obtain ts now c where u21: "u21 = (ts, now, c)" by (cases u21)
  let ?s20 = "upload_all ?first (Some d) s"
  have split: "ups = ?first @ [u21]" using ups rest by simp
  have cap: "length (filter ?P (image_metadata s)) + length ?first \<le> 20"
    using assms(4) lmid by simp
  from upload_all_below_cap [OF assms(1) cap] have
    md20: "image_metadata ?s20 = image_metadata s @ map (uploaded d) ?first"
    and fs20: "\<And>q. q \<in> file_path ` uploaded d ` set ?first \<Longrightarrow>
       lookup_file q (files ?s20) \<noteq> None"
    by blast+
  have dev_up: "\<And>u. device_id (uploaded d u) = d"
    by (simp add: uploaded_def new_image_def)
  have filt_up: "\<And>us. filter ?P (map (uploaded d) us) = map (uploaded d) us"
    by (simp add: filter_id_conv dev_up)
  have new: "new_image d ts now = uploaded d u21" using u21 by (simp add: uploaded_def)
  let ?path = "file_path (new_image d ts now)"
  let ?fs1 = "open_wb ?path c (files ?s20)"
  let ?md1 = "image_metadata ?s20 @ [new_image d ts now]"
  have device_images: "filter ?P ?md1 = map (uploaded d) ups"
    unfolding md20 using assms(4) split new by (simp add: filt_up dev_up)
  have times: "map upload_time (map (uploaded d) ups) = map (\<lambda>u. fst (snd u)) ups"
    by (simp add: uploaded_def new_image_def)
  have "sorted (map upload_time (map (uploaded d) ups))"
    unfolding times using assms(3) by (rule strict_sorted_imp_sorted)
  then have sorted_id: "sort_key upload_time (map (uploaded d) ups) = map (uploaded d) ups"
    by (rule sort_key_id_if_sorted)
  have old: "slice_to (sort_key upload_time (filter ?P ?md1)) (- 20) = [uploaded d u1]"
    unfolding device_images sorted_id using assms(2) ups
    by (simp add: slice_to_last_20)
  let ?p1 = "file_path (uploaded d u1)"
  have "lookup_file ?p1 (files ?s20) \<noteq> None" by (rule fs20) simp
  then have present: "lookup_file ?p1 ?fs1 \<noteq> None" by (simp add: open_wb_present)
  let ?fs2 = "filter (\<lambda>(k, v). \<not> same_file k ?p1) ?fs1"
  from present have removed_file: "os_remove ?p1 ?fs1 = Inr ?fs2" by (rule os_remove_present)
  have notin: "uploaded d u1 \<notin> set (image_metadata s)"
    using assms(4) dev_up [of u1] by (auto simp: filter_empty_conv)
  have md1: "?md1 = image_metadata s @ uploaded d u1 # map (uploaded d) rest"
    unfolding md20 using rest new by simp
  have removed: "remove1 (uploaded d u1) ?md1 = image_metadata s @ map (uploaded d) rest"
    unfolding md1 using notin by (simp add: remove1_append)
  have mem: "uploaded d u1 \<in> set ?md1" unfolding md1 by simp
  let ?s2 = "?s20\<lparr>files := ?fs1, image_metadata := ?md1\<rparr>"
  let ?s3 = "?s20\<lparr>files := ?fs2,
                image_metadata := image_metadata s @ map (uploaded d) rest\<rparr>"
  have evict: "remove_old [uploaded d u1] ?s2 = (None, ?s3)"
    using removed_file mem removed by (simp add: list_remove_def)
  have len: "length (filter ?P ?md1) > 20"
    unfolding device_images using assms(2) by simp
  have last_upload: "upload_image ts now c (Some d) ?s20 = (Inr (d @ ''-'' @ ts @ ''.png''), ?s3)"
    using assms(1) len old evict
    by (simp add: upload_image_def Let_def new_image_def)
  have final: "upload_all ups (Some d) s = ?s3"
    unfolding split upload_all_append using u21 last_upload by simp
  have "filter ?P (image_metadata ?s3) = map (uploaded d) (tl ups)"
    using assms(4) ups by (simp add: filt_up)
  moreover have absent: "lookup_file ?p1 (files ?s3) = None"
    by (simp add: removed_absent)
  moreover from absent have "map_of (files ?s3) ?p1 = None" by (rule lookup_file_raw)
  ultimately show ?thesis unfolding final using ups by simp
qed

theorem oldest_first_eviction_witness:
  "''gate'' \<noteq> [] \<and> length (tl burst_uploads) = 21 \<and>
   sorted_wrt (<) (map (\<lambda>u. fst (snd u)) (tl burst_uploads)) \<and>
   filter (\<lambda>img. device_id img = ''gate'') (image_metadata example_state) = [] \<and>
   filter (\<lambda>img. device_id img = ''gate'')
     (image_metadata (upload_all (tl burst_uploads) (Some ''gate'') example_state)) =
     map (uploaded ''gate'') (tl (tl burst_uploads)) \<and>
   map_of (files (upload_all (tl burst_uploads) (Some ''gate'') example_state))
     (file_path (uploaded ''gate'' (hd (tl burst_uploads)))) = None \<and>
   lookup_file (file_path (uploaded ''gate'' (hd (tl burst_uploads))))
     (files (upload_all (tl burst_uploads) (Some ''gate'') example_state)) = None"
proof -
  have h1: "''gate'' \<noteq> []" by simp
  have h2: "length (tl burst_uploads) = 21" by (simp add: burst_uploads_def)
  have h3: "sorted_wrt (<) (map (\<lambda>u. fst (snd u)) (tl burst_uploads))"
    by (simp add: burst_uploads_def)
  have h4: "filter (\<lambda>img. device_id img = ''gate'') (image_metadata example_state) = []"
    by (simp add: example_state_def example_ledger_def new_image_def)
  from oldest_first_eviction [OF h1 h2 h3 h4] h1 h2 h3 h4 show ?thesis by blast
qed

text \<open>
  Claim C1, at its failing input. Starting from the empty state, device \<open>cam\<close>
  uploads 22 images, the first two within one second, so that both get the file name
  \<open>cam-20240101_120000.png\<close>. The 21st upload evicts the first record and deletes
  that file. The 22nd upload selects the second record for eviction, \<^verbatim>\<open>os.remove\<close>
  raises \<^verbatim>\<open>FileNotFoundError\<close>, and the record stays: after the eviction step of
  the 22nd upload the ledger holds 21 records of the device.
\<close>

theorem cap_exceeded_after_burst:
  "length (filter (\<lambda>img. device_id img = ''cam'')
     (image_metadata (upload_all burst_uploads (Some ''cam'') initial_state))) = 21"
  by code_simp

text \<open>
  Claim C3, at its failing input. Before the last upload of the same sequence, the
  file of the second record is absent (under its path and under every other path
  that names it). The last upload selects that record, and no
  other, for eviction and succeeds (it answers with the new file name), but the
  record is still in the ledger afterwards.
\<close>

theorem eviction_keeps_record_without_blob:
  "map_of (files (upload_all (take 21 burst_uploads) (Some ''cam'') initial_state))
     (file_path (new_image ''cam'' ''20240101_120000'' 600000)) = None \<and>
   lookup_file (file_path (new_image ''cam'' ''20240101_120000'' 600000))
     (files (upload_all (take 21 burst_uploads) (Some ''cam'') initial_state)) = None \<and>
   slice_to (sort_key upload_time (filter (\<lambda>img. device_id img = ''cam'')
       (image_metadata (upload_all (take 21 burst_uploads) (Some ''cam'') initial_state) @
        [new_image ''cam'' ''20240101_120020'' 20100000]))) (- 20) =
     [new_image ''cam'' ''20240101_120000'' 600000] \<and>
   fst (upload_image ''20240101_120020'' 20100000 [] (Some ''cam'')
          (upload_all (take 21 burst_uploads) (Some ''cam'') initial_state)) =
     Inr ''cam-20240101_120020.png'' \<and>
   new_image ''cam'' ''20240101_120000'' 600000 \<in>
     set (image_metadata (snd (upload_image ''20240101_120020'' 20100000 [] (Some ''cam'')
          (upload_all (take 21 burst_uploads) (Some ''cam'') initial_state))))"
  by code_simp

section \<open>What an upload leaves untouched\<close>








lemma well_formed_new_image: "length ts = 15 \<Longrightarrow> well_formed (new_image d ts t)"
  by (simp add: well_formed_def new_image_def)



lemma upload_image_state:
  "snd (upload_image ts now c (Some d) s) =
     (if d = [] then s
      else let s2 = s\<lparr>files := open_wb (file_path (new_image d ts now)) c (files s),
                      image_metadata := image_metadata s @ [new_image d ts now]\<rparr>;
               device_images = filter (\<lambda>img. device_id img = d) (image_metadata s2)
           in if length device_images > 20
              then snd (remove_old (slice_to (sort_key upload_time device_images) (- 20)) s2)
              else s2)"
  by (simp add: upload_image_def Let_def new_image_def split: prod.splits option.splits)



lemma remove_old_subset:
  "set (image_metadata (snd (remove_old olds s))) \<subseteq> set (image_metadata s)"
proof (induction olds s rule: remove_old.induct)
  case (1 s)
  show ?case by simp
next
  case (2 old_img rest s)
  show ?case
  proof (cases "os_remove (file_path old_img) (files s)")
    case (Inl e)
    with "2.IH"(1) show ?thesis by simp
  next
    case (Inr fs)
    show ?thesis
    proof (cases "list_remove old_img (image_metadata s)")
      case (Inl e)
      with Inr show ?thesis by simp
    next
      case inr: (Inr md)
      then have "set md \<subseteq> set (image_metadata s)"
        using set_remove1_subset [of old_img "image_metadata s"]
        by (auto simp: list_remove_def split: if_splits)
      with "2.IH"(2) [OF Inr inr] Inr inr show ?thesis by auto
    qed
  qed
qed

lemma upload_image_well_formed:
  assumes "list_all well_formed (image_metadata s)" and "length ts = 15"
  shows "list_all well_formed (image_metadata (snd (upload_image ts now c dev s)))"
proof (cases dev)
  case None
  with assms(1) show ?thesis by (simp add: upload_image_def)
next
  case (Some d)
  let ?s2 = "s\<lparr>files := open_wb (file_path (new_image d ts now)) c (files s),
                image_metadata := image_metadata s @ [new_image d ts now]\<rparr>"
  have s2: "list_all well_formed (image_metadata ?s2)"
    using assms by (simp add: well_formed_new_image)
  have "list_all well_formed (image_metadata (snd (remove_old olds ?s2)))" for olds
    using remove_old_subset [of olds ?s2] s2 unfolding list_all_iff by blast
  with assms(1) s2 Some show ?thesis
    by (simp add: upload_image_state Let_def)
qed




end
